theory Spec2Isabelle
  imports Main "HOL-Library.Multiset" "HOL-Library.Sublist" "HOL-Library.Word"
begin

section \<open>Units of work and the WaitGroup\<close>

text \<open>
  The repository is a structured-concurrency toolkit: a \<open>WaitGroup\<close> that spawns units of
  work on goroutines and joins them, and a parallel \<open>Map\<close>/\<open>MapErr\<close> in package \<open>iter\<close>
  built on an index iterator. \<open>Map\<close> and \<open>MapErr\<close> are embedded from \<open>iter/map.go\<close>
  and the units of work from the WaitGroup's tests; the WaitGroup itself, the iterator
  and the multi-error library are modelled from the specification.

  Concurrency is modelled by interleaving. A unit of work (\<open>func()\<close>) acts on the state it
  shares with the other units in one atomic step, and either returns or panics with a
  payload. This is exact for the units the claims speak about: an atomic counter
  increment, a write to a slice index that no other unit touches, an append under a
  mutex. The scheduler is an explicit argument: a list of choices that says which of the
  running units completes next. Every theorem is proved for all schedules.
\<close>

type_synonym ('s, 'p) work = "'s \<Rightarrow> 's \<times> 'p option"

text \<open>
  Modelled from the spec: the CapturedFailure of section 3, which wraps the payload of an
  abnormal termination (the type is declared in a file that is not available).
\<close>

datatype 'p CapturedFailure = CapturedFailure (payload: 'p)

text \<open>
  Modelled from the spec: the TaskGroup of section 3 (\<open>WaitGroup\<close> in the tests; its
  source file is not available). \<open>outstanding\<close> holds the units that were spawned and
  have not finished (the outstanding-task counter is its length), \<open>slot\<close> is the
  single-slot holder of the first captured abnormal termination, and \<open>world\<close> is the
  state the units share.
\<close>

record ('s, 'p) WaitGroup =
  outstanding :: "('s, 'p) work list"
  slot :: "'p CapturedFailure option"
  world :: "'s"

text \<open>
  Modelled from the spec: a WaitGroup is zero-initialised at declaration
  (\<open>var wg WaitGroup\<close>, \<open>NewWaitGroup()\<close>): nothing outstanding, the slot unset.
\<close>

definition NewWaitGroup :: "'s \<Rightarrow> ('s, 'p) WaitGroup" where
  "NewWaitGroup w = \<lparr>outstanding = [], slot = None, world = w\<rparr>"

text \<open>
  Modelled from the spec: Spawn (\<open>wg.Go(f)\<close>) registers the unit as outstanding and hands
  it to the scheduler.
\<close>

definition Go :: "('s, 'p) work \<Rightarrow> ('s, 'p) WaitGroup \<Rightarrow> ('s, 'p) WaitGroup" where
  "Go f wg = wg\<lparr>outstanding := outstanding wg @ [f]\<rparr>"

text \<open>
  Modelled from the spec: the guarded wrapper of section 4.1 stores an intercepted
  abnormal termination "only if the slot is currently empty (compare-and-set semantics,
  not a plain overwrite)".
\<close>

definition capture :: "'p option \<Rightarrow> 'p CapturedFailure option \<Rightarrow> 'p CapturedFailure option" where
  "capture r s =
     (case r of
        None \<Rightarrow> s
      | Some p \<Rightarrow> (case s of None \<Rightarrow> Some (CapturedFailure p) | Some c \<Rightarrow> Some c))"

text \<open>
  Modelled from the spec: one scheduler step. The choice \<open>c\<close> selects one of the
  outstanding units (modulo their number); the unit runs inside the guarded wrapper, its
  panic, if any, is captured, and it is signalled as complete whether or not it
  panicked. With nothing outstanding the step does nothing.
\<close>

definition complete :: "nat \<Rightarrow> ('s, 'p) WaitGroup \<Rightarrow> ('s, 'p) WaitGroup" where
  "complete c wg =
     (if outstanding wg = [] then wg
      else
        let k = c mod length (outstanding wg);
            (w', r) = (outstanding wg ! k) (world wg)
        in \<lparr>outstanding = take k (outstanding wg) @ drop (Suc k) (outstanding wg),
            slot = capture r (slot wg),
            world = w'\<rparr>)"

text \<open>
  Modelled from the spec: Spawn "may be called repeatedly, including after some
  previously spawned work has already completed". What happens to a WaitGroup before it is
  joined is a sequence of events: the caller spawns a unit, or the scheduler lets a unit
  that is already running complete. \<open>spawned\<close> lists the units of a sequence.
\<close>

datatype ('s, 'p) event = Spawn "('s, 'p) work" | Complete nat

fun run :: "('s, 'p) event list \<Rightarrow> ('s, 'p) WaitGroup \<Rightarrow> ('s, 'p) WaitGroup" where
  "run [] wg = wg"
| "run (Spawn f # es) wg = run es (Go f wg)"
| "run (Complete c # es) wg = run es (complete c wg)"

fun spawned :: "('s, 'p) event list \<Rightarrow> ('s, 'p) work list" where
  "spawned [] = []"
| "spawned (Spawn f # es) = f # spawned es"
| "spawned (Complete c # es) = spawned es"

text \<open>
  Modelled from the spec: Join and JoinSafe block "until every currently-registered unit
  of work has finished". \<open>drain\<close> lets the outstanding units complete one by one, in the
  order the schedule chooses (a schedule that is used up chooses the oldest unit), until
  none is left.
\<close>

function drain :: "nat list \<Rightarrow> ('s, 'p) WaitGroup \<Rightarrow> ('s, 'p) WaitGroup" where
  "drain cs wg =
     (if outstanding wg = [] then wg
      else (case cs of
              [] \<Rightarrow> drain [] (complete 0 wg)
            | c # cs' \<Rightarrow> drain cs' (complete c wg)))"
  by pat_completeness auto
termination
proof (relation "measure (\<lambda>(cs, wg). length (outstanding wg))")
  have shorter: "length (outstanding (complete c wg)) < length (outstanding wg)"
    if "outstanding wg \<noteq> []" for c and wg :: "('s, 'p) WaitGroup"
  proof -
    have less: "length (take k fs @ drop (Suc k) fs) < length fs"
      if "k < length fs" for k and fs :: "('s, 'p) work list"
      using that by simp
    from that have "c mod length (outstanding wg) < length (outstanding wg)"
      by simp
    from less [OF this] that show ?thesis
      by (simp add: complete_def Let_def split: prod.splits del: length_append)
  qed
  show "wf (measure (\<lambda>(cs, wg :: ('s, 'p) WaitGroup). length (outstanding wg)))"
    by simp
  show "(([], complete 0 wg), cs, wg) \<in> measure (\<lambda>(cs, wg). length (outstanding wg))"
    if "outstanding wg \<noteq> []" for cs :: "nat list" and wg :: "('s, 'p) WaitGroup"
    using shorter [OF that] by simp
  show "((cs', complete c wg), cs, wg) \<in> measure (\<lambda>(cs, wg). length (outstanding wg))"
    if "outstanding wg \<noteq> []" for cs cs' :: "nat list" and c and wg :: "('s, 'p) WaitGroup"
    using shorter [OF that] by simp
qed

declare drain.simps [simp del]

text \<open>
  Modelled from the spec: Join (\<open>wg.Wait()\<close>) drains the group and then either returns
  normally or re-raises the captured abnormal termination; the two ways it ends are the
  two values of \<open>outcome\<close>.
\<close>

datatype 'p outcome = Returned | Panicked "'p CapturedFailure"

definition Wait :: "nat list \<Rightarrow> ('s, 'p) WaitGroup \<Rightarrow> 'p outcome \<times> ('s, 'p) WaitGroup" where
  "Wait cs wg =
     (let wg' = drain cs wg
      in (case slot wg' of None \<Rightarrow> Returned | Some c \<Rightarrow> Panicked c, wg'))"

text \<open>
  Modelled from the spec: JoinSafe (\<open>wg.WaitSafe()\<close>) drains the group like Join and
  returns the captured failure, or no value, as an ordinary result.
\<close>

definition WaitSafe ::
    "nat list \<Rightarrow> ('s, 'p) WaitGroup \<Rightarrow> 'p CapturedFailure option \<times> ('s, 'p) WaitGroup" where
  "WaitSafe cs wg = (let wg' = drain cs wg in (slot wg', wg'))"

text \<open>
  Modelled from the spec: the textual representation of a captured failure (\<open>p.Error()\<close>
  in the tests) "must contain the original payload's textual content"; \<open>fmt\<close> renders the
  payload. The spec fixes no format beyond that; the prefix is the model's.
\<close>

definition Error_text :: "('p \<Rightarrow> string) \<Rightarrow> 'p CapturedFailure \<Rightarrow> string" where
  "Error_text fmt c = ''panic: '' @ fmt (payload c)"

text \<open>
  The reference against which a concurrent run is measured: the units of a list run one
  after the other, each inside the guarded wrapper, on the pair of the shared state and
  the failure slot.
\<close>

fun sequential ::
    "('s, 'p) work list \<Rightarrow> 's \<times> 'p CapturedFailure option \<Rightarrow> 's \<times> 'p CapturedFailure option" where
  "sequential [] ws = ws"
| "sequential (f # fs) (w, s) = (case f w of (w', r) \<Rightarrow> sequential fs (w', capture r s))"

definition view :: "('s, 'p) WaitGroup \<Rightarrow> 's \<times> 'p CapturedFailure option" where
  "view wg = (world wg, slot wg)"

text \<open>
  The units of work of the tests: \<open>count.Add(1)\<close> on an \<open>atomic.Int64\<close>,
  \<open>panic("super bad thing")\<close>, and the empty \<open>func() {}\<close>.
\<close>

definition Add :: "64 word \<Rightarrow> (64 word, 'p) work" where
  "Add d n = (n + d, None)"

definition panic :: "'p \<Rightarrow> ('s, 'p) work" where
  "panic p w = (w, Some p)"

definition nothing :: "('s, 'p) work" where
  "nothing w = (w, None)"

section \<open>The index iterator\<close>

text \<open>
  Modelled from the spec: the BoundedIterator configuration of section 3 (the type
  \<open>Iterator\<close> that \<open>Mapper\<close> embeds; its source file is not available):
  "maximum concurrent workers (zero/unset: default to host parallelism)".
\<close>

record Iterator =
  MaxGoroutines :: int

text \<open>
  Modelled from the spec: ForEachIndexed of section 4.2 (\<open>Iterator.ForEachIdx\<close>; its
  source file is not available) "invokes action(i, elementRefOrIndex) for every i in
  [0, length) exactly once", is "built on a TaskGroup internally", "blocks the calling
  thread until all invocations have completed", and re-raises a captured abnormal
  termination "once all invocations have finished; other invocations are never skipped or
  cancelled because of one failure". There is "no ordering guarantee": the invocations
  complete in the order the schedule chooses. The worker cap bounds how many invocations
  are active at a time, which only restricts the orders that can occur; the model admits
  every order, and the order by index (the empty schedule) occurs under every cap.
\<close>

definition ForEachIdx ::
    "Iterator \<Rightarrow> 't list \<Rightarrow> (nat \<Rightarrow> 't \<Rightarrow> ('s, 'p) work) \<Rightarrow> nat list \<Rightarrow> 's \<Rightarrow> 'p outcome \<times> 's" where
  "ForEachIdx iter input f sched w =
     (let wg = run (map (\<lambda>(i, t). Spawn (f i t)) (enumerate 0 input)) (NewWaitGroup w);
          (out, wg') = Wait sched wg
      in (out, world wg'))"

section \<open>Map and MapErr (iter/map.go)\<close>

text \<open>
  \<open>Mapper[T, R]\<close> is a struct that embeds an \<open>Iterator[T]\<close>.
\<close>

record Mapper =
  Iterator :: Iterator

text \<open>
  A transform \<open>f func(*T) R\<close> is a function of the element it is given a pointer to; it
  returns a value (\<open>Inr\<close>) or panics with a payload (\<open>Inl\<close>).

  \<open>Mapper.Map\<close>: \<open>res := make([]R, len(input))\<close> is a slice of \<open>len(input)\<close> zero values
  of \<open>R\<close> (the zero value is the parameter \<open>zero\<close>); the closure handed to
  \<open>ForEachIdx\<close> is \<open>res[i] = f(t)\<close>, which leaves \<open>res\<close> alone when \<open>f\<close> panics. The
  index is in range whenever \<open>ForEachIdx\<close> calls the closure. A panic re-raised by
  \<open>ForEachIdx\<close> leaves \<open>Map\<close> before its \<open>return\<close>.
\<close>

definition Map_closure :: "('t \<Rightarrow> 'p + 'r) \<Rightarrow> nat \<Rightarrow> 't \<Rightarrow> ('r list, 'p) work" where
  "Map_closure f i t res =
     (case f t of
        Inl p \<Rightarrow> (res, Some p)
      | Inr r \<Rightarrow> (res[i := r], None))"

definition Mapper_Map ::
    "Mapper \<Rightarrow> 'r \<Rightarrow> 't list \<Rightarrow> ('t \<Rightarrow> 'p + 'r) \<Rightarrow> nat list \<Rightarrow> 'p CapturedFailure + 'r list" where
  "Mapper_Map m zero input f sched =
     (let res = replicate (length input) zero
      in case ForEachIdx (Iterator m) input (Map_closure f) sched res of
           (Panicked c, res') \<Rightarrow> Inl c
         | (Returned, res') \<Rightarrow> Inr res')"

text \<open>The package-level \<open>Map\<close> uses the zero \<open>Mapper\<close>.\<close>

definition Map ::
    "'r \<Rightarrow> 't list \<Rightarrow> ('t \<Rightarrow> 'p + 'r) \<Rightarrow> nat list \<Rightarrow> 'p CapturedFailure + 'r list" where
  "Map zero input f sched =
     Mapper_Map \<lparr>Iterator = \<lparr>MaxGoroutines = 0\<rparr>\<rparr> zero input f sched"

text \<open>
  An error value is modelled by its text (what \<open>Error()\<close> returns); \<open>nil\<close> is \<open>None\<close>.

  Modelled from the spec: the aggregated error of section 3, "an ordered collection of
  zero or more underlying failures" (the multi-error of the library that \<open>map.go\<close>
  imports, which is not available).
\<close>

datatype MultiError = MultiError (Errors: "string list")

text \<open>
  Modelled from the spec: \<open>errors.Append(errs, err)\<close> combines the errors collected so
  far with one more; "combining zero failures yields no error", so the empty collection
  is \<open>nil\<close> and \<open>Append\<close> never returns it.
\<close>

definition Append :: "MultiError option \<Rightarrow> string \<Rightarrow> MultiError option" where
  "Append errs err =
     (case errs of
        None \<Rightarrow> Some (MultiError [err])
      | Some m \<Rightarrow> Some (MultiError (Errors m @ [err])))"

text \<open>
  Modelled from the spec: the textual form of a combined error "includes every
  underlying failure's text, typically newline- or separator-joined".
\<close>

fun join :: "string list \<Rightarrow> string" where
  "join [] = []"
| "join [e] = e"
| "join (e # es) = e @ [CHR 0x0A] @ join es"

text \<open>
  Modelled from the spec: the text of a combined error (its \<open>Error()\<close>) is the texts of
  the failures it holds, joined by newlines.
\<close>

definition MultiError_text :: "MultiError \<Rightarrow> string" where
  "MultiError_text m = join (Errors m)"

text \<open>
  \<open>Mapper.MapErr\<close>: the closure is \<open>res[i], err = f(t)\<close> followed, when \<open>err != nil\<close>, by
  \<open>errs = errors.Append(errs, err)\<close> under the mutex. The write to \<open>res[i]\<close> touches no
  other index and the append is serialised by the lock, so the closure acts on
  \<open>(res, errs)\<close> as one atomic step taken at the moment of the append.
\<close>

definition MapErr_closure ::
    "('t \<Rightarrow> 'p + 'r \<times> string option) \<Rightarrow> nat \<Rightarrow> 't \<Rightarrow> ('r list \<times> MultiError option, 'p) work" where
  "MapErr_closure f i t st =
     (case f t of
        Inl p \<Rightarrow> (st, Some p)
      | Inr (r, err) \<Rightarrow>
          (case st of (res, errs) \<Rightarrow>
             ((res[i := r], (case err of None \<Rightarrow> errs | Some e \<Rightarrow> Append errs e)), None)))"

definition Mapper_MapErr ::
    "Mapper \<Rightarrow> 'r \<Rightarrow> 't list \<Rightarrow> ('t \<Rightarrow> 'p + 'r \<times> string option) \<Rightarrow> nat list
      \<Rightarrow> 'p CapturedFailure + 'r list \<times> MultiError option" where
  "Mapper_MapErr m zero input f sched =
     (let res = replicate (length input) zero;
          errs = None
      in case ForEachIdx (Iterator m) input (MapErr_closure f) sched (res, errs) of
           (Panicked c, st) \<Rightarrow> Inl c
         | (Returned, st) \<Rightarrow> Inr st)"

text \<open>The package-level \<open>MapErr\<close> uses the zero \<open>Mapper\<close>.\<close>

definition MapErr ::
    "'r \<Rightarrow> 't list \<Rightarrow> ('t \<Rightarrow> 'p + 'r \<times> string option) \<Rightarrow> nat list
      \<Rightarrow> 'p CapturedFailure + 'r list \<times> MultiError option" where
  "MapErr zero input f sched =
     Mapper_MapErr \<lparr>Iterator = \<lparr>MaxGoroutines = 0\<rparr>\<rparr> zero input f sched"

text \<open>The failures a combined error holds; \<open>nil\<close> holds none.\<close>

definition Errors_of :: "MultiError option \<Rightarrow> string list" where
  "Errors_of errs = (case errs of None \<Rightarrow> [] | Some m \<Rightarrow> Errors m)"

text \<open>
  The order in which the units complete. Join re-raises "the abnormal termination captured
  first (by completion order)", so the claims about which failure is returned are stated
  against this order, which is computed from the events and the schedule alone: the
  failure slot plays no part in it. \<open>run_order\<close> lists the units that complete during a
  sequence of events, in the order they complete, and \<open>run_rest\<close> the units still running
  after it; \<open>drain_order\<close> lists the units in the order the drain lets them complete.
\<close>

fun run_order :: "('s, 'p) event list \<Rightarrow> ('s, 'p) work list \<Rightarrow> ('s, 'p) work list" where
  "run_order [] fs = []"
| "run_order (Spawn f # es) fs = run_order es (fs @ [f])"
| "run_order (Complete c # es) fs =
     (if fs = [] then run_order es fs
      else let k = c mod length fs
           in fs ! k # run_order es (take k fs @ drop (Suc k) fs))"

fun run_rest :: "('s, 'p) event list \<Rightarrow> ('s, 'p) work list \<Rightarrow> ('s, 'p) work list" where
  "run_rest [] fs = fs"
| "run_rest (Spawn f # es) fs = run_rest es (fs @ [f])"
| "run_rest (Complete c # es) fs =
     (if fs = [] then run_rest es fs
      else let k = c mod length fs
           in run_rest es (take k fs @ drop (Suc k) fs))"

function drain_order :: "nat list \<Rightarrow> ('s, 'p) work list \<Rightarrow> ('s, 'p) work list" where
  "drain_order cs fs =
     (if fs = [] then []
      else (case cs of
              [] \<Rightarrow> fs ! 0 # drain_order [] (drop (Suc 0) fs)
            | c # cs' \<Rightarrow>
                (let k = c mod length fs
                 in fs ! k # drain_order cs' (take k fs @ drop (Suc k) fs))))"
  by pat_completeness auto
termination
proof (relation "measure (\<lambda>(cs, fs). length fs)")
  show "wf (measure (\<lambda>(cs :: nat list, fs :: ('s, 'p) work list). length fs))"
    by simp
  show "(([], drop (Suc 0) fs), cs, fs) \<in> measure (\<lambda>(cs, fs). length fs)"
    if "fs \<noteq> []" for cs :: "nat list" and fs :: "('s, 'p) work list"
    using that by simp
  show "((cs', take k fs @ drop (Suc k) fs), cs, fs) \<in> measure (\<lambda>(cs, fs). length fs)"
    if "fs \<noteq> []" "k = c mod length fs"
    for cs cs' :: "nat list" and c k and fs :: "('s, 'p) work list"
  proof -
    from that have "k < length fs" by simp
    then show ?thesis by simp
  qed
qed

declare drain_order.simps [simp del]

definition completion_order :: "('s, 'p) event list \<Rightarrow> nat list \<Rightarrow> ('s, 'p) work list" where
  "completion_order es cs = run_order es [] @ drain_order cs (run_rest es [])"

text \<open>
  The payload of the first unit of a list to panic, when the units run one after the
  other from a given shared state; no payload if none of them panics.
\<close>

fun first_panic :: "('s, 'p) work list \<Rightarrow> 's \<Rightarrow> 'p option" where
  "first_panic [] w = None"
| "first_panic (f # fs) w =
     (case f w of (w', None) \<Rightarrow> first_panic fs w' | (w', Some p) \<Rightarrow> Some p)"

section \<open>Every run is a sequential run of a permutation of the spawned units\<close>

lemma sequential_append: "sequential (fs @ gs) ws = sequential gs (sequential fs ws)"
  by (induction fs ws rule: sequential.induct) (auto split: prod.splits)

lemma mset_without_nth:
  "k < length fs \<Longrightarrow> mset fs = add_mset (fs ! k) (mset (take k fs @ drop (Suc k) fs))"
proof -
  assume "k < length fs"
  then have "fs = take k fs @ fs ! k # drop (Suc k) fs"
    by (simp add: id_take_nth_drop)
  then have "mset fs = mset (take k fs @ fs ! k # drop (Suc k) fs)"
    by simp
  then show ?thesis by simp
qed

lemma complete_step:
  assumes "outstanding wg \<noteq> []"
  shows "\<exists>f. mset (outstanding wg) = add_mset f (mset (outstanding (complete c wg)))
           \<and> view (complete c wg) = sequential [f] (view wg)"
proof -
  let ?k = "c mod length (outstanding wg)"
  from assms have k: "?k < length (outstanding wg)" by simp
  have "mset (outstanding wg) = add_mset (outstanding wg ! ?k) (mset (outstanding (complete c wg)))"
    using mset_without_nth [OF k] assms by (simp add: complete_def Let_def split: prod.splits)
  moreover have "view (complete c wg) = sequential [outstanding wg ! ?k] (view wg)"
    using assms by (simp add: complete_def Let_def view_def split: prod.splits)
  ultimately show ?thesis by blast
qed

lemma drain_sequential:
  "\<exists>order. mset order = mset (outstanding wg) \<and> outstanding (drain cs wg) = []
      \<and> view (drain cs wg) = sequential order (view wg)"
proof (induction cs wg rule: drain.induct)
  case (1 cs wg)
  show ?case
  proof (cases "outstanding wg = []")
    case True
    then show ?thesis by (simp add: drain.simps [of cs wg])
  next
    case False
    define c where "c = (case cs of [] \<Rightarrow> 0 | c # _ \<Rightarrow> c)"
    define cs' where "cs' = (case cs of [] \<Rightarrow> [] | _ # cs' \<Rightarrow> cs')"
    have unfold: "drain cs wg = drain cs' (complete c wg)"
      using False by (simp add: drain.simps [of cs wg] c_def cs'_def split: list.splits)
    have "\<exists>order. mset order = mset (outstanding (complete c wg))
            \<and> outstanding (drain cs' (complete c wg)) = []
            \<and> view (drain cs' (complete c wg)) = sequential order (view (complete c wg))"
      using "1.IH" False by (cases cs) (simp_all add: c_def cs'_def)
    then obtain order where order: "mset order = mset (outstanding (complete c wg))"
        "outstanding (drain cs' (complete c wg)) = []"
        "view (drain cs' (complete c wg)) = sequential order (view (complete c wg))"
      by blast
    from complete_step [OF False, of c] obtain f where
      f: "mset (outstanding wg) = add_mset f (mset (outstanding (complete c wg)))"
         "view (complete c wg) = sequential [f] (view wg)"
      by blast
    have "mset (f # order) = mset (outstanding wg)"
      using order(1) f(1) by simp
    moreover have "view (drain cs wg) = sequential (f # order) (view wg)"
      using order(3) f(2) sequential_append [of "[f]" order "view wg"] unfold by simp
    ultimately show ?thesis
      using order(2) unfold by metis
  qed
qed

lemma run_sequential:
  "\<exists>order. mset order + mset (outstanding (run es wg)) = mset (outstanding wg) + mset (spawned es)
      \<and> view (run es wg) = sequential order (view wg)"
proof (induction es wg rule: run.induct)
  case (1 wg)
  have "mset [] + mset (outstanding (run [] wg)) = mset (outstanding wg) + mset (spawned [])
      \<and> view (run [] wg) = sequential [] (view wg)"
    by simp
  then show ?case by blast
next
  case (2 f es wg)
  then obtain order where
    "mset order + mset (outstanding (run es (Go f wg))) = mset (outstanding (Go f wg)) + mset (spawned es)"
    "view (run es (Go f wg)) = sequential order (view (Go f wg))"
    by blast
  then have "mset order + mset (outstanding (run (Spawn f # es) wg))
        = mset (outstanding wg) + mset (spawned (Spawn f # es))
      \<and> view (run (Spawn f # es) wg) = sequential order (view wg)"
    by (simp add: Go_def view_def)
  then show ?case by blast
next
  case (3 c es wg)
  then obtain order where order:
    "mset order + mset (outstanding (run es (complete c wg)))
       = mset (outstanding (complete c wg)) + mset (spawned es)"
    "view (run es (complete c wg)) = sequential order (view (complete c wg))"
    by blast
  show ?case
  proof (cases "outstanding wg = []")
    case True
    then have "complete c wg = wg" by (simp add: complete_def)
    with order have "mset order + mset (outstanding (run (Complete c # es) wg))
        = mset (outstanding wg) + mset (spawned (Complete c # es))
      \<and> view (run (Complete c # es) wg) = sequential order (view wg)"
      by simp
    then show ?thesis by blast
  next
    case False
    from complete_step [OF False, of c] obtain f where
      f: "mset (outstanding wg) = add_mset f (mset (outstanding (complete c wg)))"
         "view (complete c wg) = sequential [f] (view wg)"
      by blast
    have "mset (f # order) + mset (outstanding (run (Complete c # es) wg))
        = mset (outstanding wg) + mset (spawned (Complete c # es))"
      using order(1) f(1) by simp
    moreover have "view (run (Complete c # es) wg) = sequential (f # order) (view wg)"
      using order(2) f(2) sequential_append [of "[f]" order "view wg"] by simp
    ultimately show ?thesis by blast
  qed
qed

lemma join_sequential:
  "\<exists>order. mset order = mset (outstanding wg) + mset (spawned es)
      \<and> outstanding (drain cs (run es wg)) = []
      \<and> view (drain cs (run es wg)) = sequential order (view wg)"
proof -
  from run_sequential [of es wg] obtain xs where
    xs: "mset xs + mset (outstanding (run es wg)) = mset (outstanding wg) + mset (spawned es)"
        "view (run es wg) = sequential xs (view wg)"
    by blast
  from drain_sequential [of "run es wg" cs] obtain ys where
    ys: "mset ys = mset (outstanding (run es wg))" "outstanding (drain cs (run es wg)) = []"
        "view (drain cs (run es wg)) = sequential ys (view (run es wg))"
    by blast
  have "mset (xs @ ys) = mset (outstanding wg) + mset (spawned es)"
    using xs(1) ys(1) by simp
  moreover have "view (drain cs (run es wg)) = sequential (xs @ ys) (view wg)"
    using xs(2) ys(3) by (simp add: sequential_append)
  ultimately show ?thesis using ys(2) by blast
qed

lemma sequential_slot_kept: "snd (sequential fs (w, Some c)) = Some c"
  by (induction fs arbitrary: w) (auto simp: capture_def split: prod.splits option.splits)

lemma sequential_no_fault:
  "\<forall>f\<in>set fs. \<forall>w. snd (f w) = None \<Longrightarrow> snd (sequential fs (w, s)) = s"
proof (induction fs arbitrary: w)
  case Nil
  show ?case by simp
next
  case (Cons f fs)
  obtain w' r where fw: "f w = (w', r)" by (cases "f w")
  with Cons.prems have "r = None" by (metis list.set_intros(1) snd_conv)
  with fw Cons show ?case by (simp add: capture_def)
qed

lemma sequential_fault:
  "\<exists>f\<in>set fs. \<forall>w. snd (f w) \<noteq> None \<Longrightarrow> snd (sequential fs (w, s)) \<noteq> None"
proof (induction fs arbitrary: w s)
  case Nil
  then show ?case by simp
next
  case (Cons f fs)
  obtain w' r where fw: "f w = (w', r)" by (cases "f w")
  show ?case
  proof (cases "\<forall>w. snd (f w) \<noteq> None")
    case True
    with fw obtain p where "r = Some p" by (metis not_None_eq snd_conv)
    then obtain c where "capture r s = Some c"
      by (cases s) (simp_all add: capture_def)
    with fw show ?thesis by (simp add: sequential_slot_kept)
  next
    case False
    from Cons.prems obtain g where g: "g \<in> set (f # fs)" "\<forall>w. snd (g w) \<noteq> None"
      by blast
    with False have "g \<in> set fs" by (metis set_ConsD)
    with g(2) have "\<exists>f\<in>set fs. \<forall>w. snd (f w) \<noteq> None" by blast
    from Cons.IH [OF this] fw show ?thesis by simp
  qed
qed

lemma sequential_captured:
  "snd (sequential fs (w, None)) = Some c \<Longrightarrow> \<exists>f\<in>set fs. \<exists>w. snd (f w) = Some (payload c)"
proof (induction fs arbitrary: w)
  case Nil
  then show ?case by simp
next
  case (Cons f fs)
  obtain w' r where fw: "f w = (w', r)" by (cases "f w")
  show ?case
  proof (cases r)
    case None
    with fw Cons.prems have "snd (sequential fs (w', None)) = Some c"
      by (simp add: capture_def)
    from Cons.IH [OF this] show ?thesis by auto
  next
    case (Some p)
    with fw Cons.prems have "c = CapturedFailure p"
      by (simp add: capture_def sequential_slot_kept)
    with fw Some have "snd (f w) = Some (payload c)" by simp
    then show ?thesis by auto
  qed
qed


lemma mset_map_permuted:
  "mset xs = mset (map h ys) \<Longrightarrow> \<exists>zs. xs = map h zs \<and> mset zs = mset ys"
proof (induction xs arbitrary: ys)
  case Nil
  then show ?case by simp
next
  case (Cons x xs)
  then have "x \<in># mset (map h ys)" by (metis list.set_intros(1) set_mset_mset)
  then obtain y where y: "y \<in> set ys" "x = h y" by auto
  have "mset xs = mset (x # xs) - {#x#}" by simp
  also have "\<dots> = mset (map h ys) - {#h y#}" using Cons.prems y by simp
  also have "\<dots> = mset (map h (remove1 y ys))"
    using y(1) by (simp add: image_mset_Diff)
  finally obtain zs where zs: "xs = map h zs" "mset zs = mset (remove1 y ys)"
    using Cons.IH by blast
  have "x # xs = map h (y # zs) \<and> mset (y # zs) = mset ys"
    using zs y by simp
  then show ?case by (rule exI)
qed

lemma spawned_map_Spawn: "spawned (map (\<lambda>(i, t). Spawn (h i t)) ps) = map (\<lambda>(i, t). h i t) ps"
  by (induction ps) auto

lemma ForEachIdx_sequential:
  fixes h :: "nat \<Rightarrow> 't \<Rightarrow> ('s, 'p) work"
  shows "\<exists>ps. mset ps = mset (enumerate 0 input) \<and>
     ForEachIdx iter input h sched w =
       (case sequential (map (\<lambda>(i, t). h i t) ps) (w, None) of
          (w', None) \<Rightarrow> (Returned, w')
        | (w', Some c) \<Rightarrow> (Panicked c, w'))"
proof -
  let ?es = "map (\<lambda>(i, t). Spawn (h i t)) (enumerate 0 input)"
  let ?wg = "NewWaitGroup w :: ('s, 'p) WaitGroup"
  from join_sequential [of ?wg ?es sched] obtain order where
    order: "mset order = mset (outstanding ?wg) + mset (spawned ?es)"
           "view (drain sched (run ?es ?wg)) = sequential order (view ?wg)"
    by blast
  from order(1) have "mset order = mset (map (\<lambda>(i, t). h i t) (enumerate 0 input))"
    by (simp add: NewWaitGroup_def spawned_map_Spawn del: mset_map)
  from mset_map_permuted [OF this] obtain ps where
    ps: "order = map (\<lambda>(i, t). h i t) ps" "mset ps = mset (enumerate 0 input)"
    by blast
  have "ForEachIdx iter input h sched w =
       (case sequential (map (\<lambda>(i, t). h i t) ps) (w, None) of
          (w', None) \<Rightarrow> (Returned, w')
        | (w', Some c) \<Rightarrow> (Panicked c, w'))"
    using order(2) ps(1)
    by (auto simp: ForEachIdx_def Wait_def Let_def view_def NewWaitGroup_def
             split: prod.splits option.splits)
  with ps(2) show ?thesis by blast
qed

lemma join_view:
  "\<exists>order. mset order = mset (spawned es)
      \<and> outstanding (drain cs (run es (NewWaitGroup w0))) = []
      \<and> (world (drain cs (run es (NewWaitGroup w0))), slot (drain cs (run es (NewWaitGroup w0))))
          = sequential order (w0, None)"
  using join_sequential [of "NewWaitGroup w0" es cs]
  by (simp add: view_def NewWaitGroup_def)

lemma run_slot_kept: "slot wg = Some c \<Longrightarrow> slot (run es wg) = Some c"
proof -
  assume set: "slot wg = Some c"
  from run_sequential [of es wg] obtain order where
    "view (run es wg) = sequential order (view wg)" by blast
  then have "slot (run es wg) = snd (sequential order (world wg, Some c))"
    using set by (simp add: view_def) (metis snd_conv)
  then show ?thesis by (simp add: sequential_slot_kept)
qed

lemma drain_slot_kept: "slot wg = Some c \<Longrightarrow> slot (drain cs wg) = Some c"
proof -
  assume set: "slot wg = Some c"
  from drain_sequential [of wg cs] obtain order where
    "view (drain cs wg) = sequential order (view wg)" by blast
  then have "slot (drain cs wg) = snd (sequential order (world wg, Some c))"
    using set by (simp add: view_def) (metis snd_conv)
  then show ?thesis by (simp add: sequential_slot_kept)
qed

section \<open>Every run is the sequential run of its completion order\<close>

lemma complete_view:
  "outstanding wg \<noteq> [] \<Longrightarrow>
     view (complete c wg) = sequential [outstanding wg ! (c mod length (outstanding wg))] (view wg)
     \<and> outstanding (complete c wg)
         = take (c mod length (outstanding wg)) (outstanding wg)
           @ drop (Suc (c mod length (outstanding wg))) (outstanding wg)"
  by (simp add: complete_def Let_def view_def split: prod.splits)

lemma sequential_step: "sequential (f # fs) ws = sequential fs (sequential [f] ws)"
  using sequential_append [of "[f]" fs ws] by simp

lemma run_ordered:
  "view (run es wg) = sequential (run_order es (outstanding wg)) (view wg)
   \<and> outstanding (run es wg) = run_rest es (outstanding wg)"
proof (induction es wg rule: run.induct)
  case (1 wg)
  show ?case by simp
next
  case (2 f es wg)
  then show ?case by (simp add: Go_def view_def)
next
  case (3 c es wg)
  show ?case
  proof (cases "outstanding wg = []")
    case True
    then have "complete c wg = wg" by (simp add: complete_def)
    with 3 True show ?thesis by simp
  next
    case False
    let ?k = "c mod length (outstanding wg)"
    let ?rest = "take ?k (outstanding wg) @ drop (Suc ?k) (outstanding wg)"
    from complete_view [OF False, of c]
    have v: "view (complete c wg) = sequential [outstanding wg ! ?k] (view wg)"
      and r: "outstanding (complete c wg) = ?rest"
      by simp_all
    have "view (run (Complete c # es) wg)
            = sequential (run_order es ?rest) (sequential [outstanding wg ! ?k] (view wg))"
      using 3 v r by simp
    also have "\<dots> = sequential (outstanding wg ! ?k # run_order es ?rest) (view wg)"
      by (rule sequential_step [symmetric])
    also have "outstanding wg ! ?k # run_order es ?rest = run_order (Complete c # es) (outstanding wg)"
      using False by (simp add: Let_def)
    finally have "view (run (Complete c # es) wg)
            = sequential (run_order (Complete c # es) (outstanding wg)) (view wg)" .
    moreover have "outstanding (run (Complete c # es) wg) = run_rest (Complete c # es) (outstanding wg)"
      using 3 r False by (simp add: Let_def)
    ultimately show ?thesis by (rule conjI)
  qed
qed

lemma drain_ordered:
  "view (drain cs wg) = sequential (drain_order cs (outstanding wg)) (view wg)"
proof (induction cs wg rule: drain.induct)
  case (1 cs wg)
  show ?case
  proof (cases "outstanding wg = []")
    case True
    then show ?thesis
      by (simp add: drain.simps [of cs wg] drain_order.simps [of cs "[]"])
  next
    case False
    show ?thesis
    proof (cases cs)
      case Nil
      note step = complete_view [OF False, of 0]
      from False have k: "0 mod length (outstanding wg) = 0" by simp
      have "view (drain cs wg) = view (drain [] (complete 0 wg))"
        using False Nil by (simp add: drain.simps [of "[]" wg])
      also have "\<dots> = sequential (drain_order [] (outstanding (complete 0 wg))) (view (complete 0 wg))"
        using "1.IH"(1) False Nil by simp
      also have "\<dots> = sequential (drain_order [] (drop (Suc 0) (outstanding wg)))
            (sequential [outstanding wg ! 0] (view wg))"
        using step k by simp
      also have "\<dots> = sequential (outstanding wg ! 0 # drain_order [] (drop (Suc 0) (outstanding wg))) (view wg)"
        by (rule sequential_step [symmetric])
      also have "outstanding wg ! 0 # drain_order [] (drop (Suc 0) (outstanding wg))
                   = drain_order cs (outstanding wg)"
        using False Nil by (simp add: drain_order.simps [of "[]" "outstanding wg"])
      finally show ?thesis .
    next
      case (Cons c cs')
      let ?k = "c mod length (outstanding wg)"
      note step = complete_view [OF False, of c]
      have "view (drain cs wg) = view (drain cs' (complete c wg))"
        using False Cons by (simp add: drain.simps [of "c # cs'" wg])
      also have "\<dots> = sequential (drain_order cs' (outstanding (complete c wg))) (view (complete c wg))"
        using "1.IH"(2) False Cons by simp
      also have "\<dots> = sequential
            (drain_order cs' (take ?k (outstanding wg) @ drop (Suc ?k) (outstanding wg)))
            (sequential [outstanding wg ! ?k] (view wg))"
        using step by simp
      also have "\<dots> = sequential (outstanding wg ! ?k
            # drain_order cs' (take ?k (outstanding wg) @ drop (Suc ?k) (outstanding wg))) (view wg)"
        by (rule sequential_step [symmetric])
      also have "outstanding wg ! ?k
            # drain_order cs' (take ?k (outstanding wg) @ drop (Suc ?k) (outstanding wg))
                   = drain_order cs (outstanding wg)"
        using False Cons by (simp add: drain_order.simps [of "c # cs'" "outstanding wg"] Let_def)
      finally show ?thesis .
    qed
  qed
qed

lemma join_ordered:
  "view (drain cs (run es (NewWaitGroup w0))) = sequential (completion_order es cs) (w0, None)"
proof -
  let ?wg = "NewWaitGroup w0 :: ('a, 'b) WaitGroup"
  have "view (drain cs (run es ?wg))
          = sequential (drain_order cs (outstanding (run es ?wg))) (view (run es ?wg))"
    by (rule drain_ordered)
  also have "\<dots> = sequential (drain_order cs (run_rest es [])) (sequential (run_order es []) (w0, None))"
    using run_ordered [of es ?wg] by (simp add: NewWaitGroup_def view_def)
  finally show ?thesis
    by (simp add: completion_order_def sequential_append)
qed

lemma sequential_first_panic:
  "snd (sequential fs (w, None)) = map_option CapturedFailure (first_panic fs w)"
proof (induction fs arbitrary: w)
  case Nil
  show ?case by simp
next
  case (Cons f fs)
  obtain w' r where fw: "f w = (w', r)" by (cases "f w")
  show ?case
  proof (cases r)
    case None
    with fw Cons show ?thesis by (simp add: capture_def)
  next
    case (Some p)
    with fw show ?thesis by (simp add: capture_def sequential_slot_kept)
  qed
qed

lemma run_order_mset:
  "mset (run_order es fs) + mset (run_rest es fs) = mset fs + mset (spawned es)"
proof (induction es fs rule: run_order.induct)
  case (1 fs)
  show ?case by simp
next
  case (2 f es fs)
  then show ?case by simp
next
  case (3 c es fs)
  show ?case
  proof (cases "fs = []")
    case True
    with 3 show ?thesis by simp
  next
    case False
    let ?k = "c mod length fs"
    from False have "?k < length fs" by simp
    from mset_without_nth [OF this] 3 False show ?thesis
      by (simp add: Let_def)
  qed
qed

lemma drain_order_mset: "mset (drain_order cs fs) = mset fs"
proof (induction cs fs rule: drain_order.induct)
  case (1 cs fs)
  show ?case
  proof (cases "fs = []")
    case True
    then show ?thesis by (simp add: drain_order.simps [of cs "[]"])
  next
    case False
    show ?thesis
    proof (cases cs)
      case Nil
      from False have "0 < length fs" by simp
      from mset_without_nth [OF this] "1.IH"(1) False Nil show ?thesis
        by (simp add: drain_order.simps [of "[]" fs])
    next
      case (Cons c cs')
      let ?k = "c mod length fs"
      from False have "?k < length fs" by simp
      from mset_without_nth [OF this] "1.IH"(2) [OF False Cons refl] False Cons show ?thesis
        by (simp add: drain_order.simps [of "c # cs'" fs] Let_def)
    qed
  qed
qed

lemma completion_order_mset: "mset (completion_order es cs) = mset (spawned es)"
  using run_order_mset [of es "[]"] by (simp add: completion_order_def drain_order_mset)

section \<open>The closures of Map and MapErr, run one after the other\<close>

lemma sequential_Map_closure:
  "\<forall>(i, t)\<in>set ps. f t = Inr (g t) \<Longrightarrow>
     sequential (map (\<lambda>(i, t). Map_closure f i t) ps) (res, s)
       = (fold (\<lambda>(i, t) res. res[i := g t]) ps res, s)"
  by (induction ps arbitrary: res) (auto simp: Map_closure_def capture_def)

lemma fold_writes:
  assumes "\<forall>(i, t)\<in>set ps. t = input ! i"
  shows "length (fold (\<lambda>(i, t) res. res[i := g t]) ps res) = length res
     \<and> (\<forall>j<length res. fold (\<lambda>(i, t) res. res[i := g t]) ps res ! j
           = (if j \<in> fst ` set ps then g (input ! j) else res ! j))"
  using assms
proof (induction ps arbitrary: res)
  case Nil
  show ?case by simp
next
  case (Cons p ps)
  obtain i t where p: "p = (i, t)" by (cases p)
  with Cons.prems have t: "t = input ! i" by simp
  from Cons.prems have rest: "\<forall>(i, t)\<in>set ps. t = input ! i" by simp
  note IH = Cons.IH [OF rest, of "res[i := g t]"]
  show ?case
  proof (intro conjI allI impI)
    show "length (fold (\<lambda>(i, t) res. res[i := g t]) (p # ps) res) = length res"
      using IH p by simp
  next
    fix j assume j: "j < length res"
    with IH have "fold (\<lambda>(i, t) res. res[i := g t]) ps (res[i := g t]) ! j
           = (if j \<in> fst ` set ps then g (input ! j) else res[i := g t] ! j)"
      by simp
    with j t p show "fold (\<lambda>(i, t) res. res[i := g t]) (p # ps) res ! j
           = (if j \<in> fst ` set (p # ps) then g (input ! j) else res ! j)"
      by (cases "j = i") auto
  qed
qed

lemma fold_writes_enumerate:
  assumes "mset ps = mset (enumerate 0 input)"
  shows "fold (\<lambda>(i, t) res. res[i := g t]) ps (replicate (length input) zero) = map g input"
proof -
  have set: "set ps = set (enumerate 0 input)"
    using assms by (rule mset_eq_setD)
  then have elems: "\<forall>(i, t)\<in>set ps. t = input ! i"
    by (auto simp: in_set_enumerate_eq)
  have all: "j \<in> fst ` set ps" if "j < length input" for j
  proof -
    from that have "(j, input ! j) \<in> set (enumerate 0 input)"
      by (simp add: in_set_enumerate_eq)
    with set show ?thesis by force
  qed
  from fold_writes [OF elems, of g "replicate (length input) zero"] all
  show ?thesis by (intro nth_equalityI) simp_all
qed

lemma Mapper_Map_result:
  assumes "\<forall>t\<in>set input. f t = Inr (g t)"
  shows "Mapper_Map m zero input f sched = Inr (map g input)"
proof -
  from ForEachIdx_sequential [of input "Iterator m" "Map_closure f" sched "replicate (length input) zero"]
  obtain ps where ps: "mset ps = mset (enumerate 0 input)"
    "ForEachIdx (Iterator m) input (Map_closure f) sched (replicate (length input) zero) =
       (case sequential (map (\<lambda>(i, t). Map_closure f i t) ps) (replicate (length input) zero, None) of
          (w', None) \<Rightarrow> (Returned, w')
        | (w', Some c) \<Rightarrow> (Panicked c, w'))"
    by blast
  have "set ps = set (enumerate 0 input)"
    using ps(1) by (rule mset_eq_setD)
  with assms have "\<forall>(i, t)\<in>set ps. f t = Inr (g t)"
    by (auto simp: in_set_enumerate_eq)
  from sequential_Map_closure [OF this] ps
  show ?thesis
    by (simp add: Mapper_Map_def Let_def fold_writes_enumerate)
qed

lemma Errors_of_Append: "Errors_of (Append errs x) = Errors_of errs @ [x]"
  by (simp add: Errors_of_def Append_def split: option.splits)

lemma Append_not_None: "Append errs x \<noteq> None"
  by (simp add: Append_def split: option.splits)

lemma fold_appends:
  "Errors_of (fold (\<lambda>(i, t) errs. case e t of None \<Rightarrow> errs | Some x \<Rightarrow> Append errs x) ps errs)
       = Errors_of errs @ List.map_filter (\<lambda>(i, t). e t) ps
   \<and> (fold (\<lambda>(i, t) errs. case e t of None \<Rightarrow> errs | Some x \<Rightarrow> Append errs x) ps errs = None
        \<longleftrightarrow> errs = None \<and> List.map_filter (\<lambda>(i, t). e t) ps = [])"
proof (induction ps arbitrary: errs)
  case Nil
  show ?case by simp
next
  case (Cons p ps)
  obtain i t where p: "p = (i, t)" by (cases p)
  show ?case
  proof (cases "e t")
    case None
    with p Cons.IH [of errs] show ?thesis by simp
  next
    case (Some x)
    with p Cons.IH [of "Append errs x"] show ?thesis
      by (simp add: Errors_of_Append Append_not_None)
  qed
qed

lemma sequential_MapErr_closure:
  "\<forall>(i, t)\<in>set ps. f t = Inr (g t, e t) \<Longrightarrow>
     sequential (map (\<lambda>(i, t). MapErr_closure f i t) ps) ((res, errs), s)
       = ((fold (\<lambda>(i, t) res. res[i := g t]) ps res,
           fold (\<lambda>(i, t) errs. case e t of None \<Rightarrow> errs | Some x \<Rightarrow> Append errs x) ps errs), s)"
  by (induction ps arbitrary: res errs) (auto simp: MapErr_closure_def capture_def)

lemma map_filter_enumerate:
  "List.map_filter (\<lambda>(i, t). e t) (enumerate n input) = List.map_filter e input"
  by (induction input arbitrary: n) (simp_all split: option.splits)

lemma mset_map_filter_enumerate:
  assumes "mset ps = mset (enumerate 0 input)"
  shows "mset (List.map_filter (\<lambda>(i, t). e t) ps) = mset (List.map_filter e input)"
proof -
  have "mset (List.map_filter (\<lambda>(i, t). e t) ps)
          = mset (List.map_filter (\<lambda>(i, t). e t) (enumerate 0 input))"
    using assms by (simp add: List.map_filter_def)
  then show ?thesis by (simp add: map_filter_enumerate)
qed

lemma Mapper_MapErr_result:
  assumes "\<forall>t\<in>set input. f t = Inr (g t, e t)"
  shows "\<exists>errs. Mapper_MapErr m zero input f sched = Inr (map g input, errs)
     \<and> mset (Errors_of errs) = mset (List.map_filter e input)
     \<and> (errs = None \<longleftrightarrow> List.map_filter e input = [])"
proof -
  let ?res = "replicate (length input) zero"
  from ForEachIdx_sequential [of input "Iterator m" "MapErr_closure f" sched "(?res, None)"]
  obtain ps where ps: "mset ps = mset (enumerate 0 input)"
    "ForEachIdx (Iterator m) input (MapErr_closure f) sched (?res, None) =
       (case sequential (map (\<lambda>(i, t). MapErr_closure f i t) ps) ((?res, None), None) of
          (w', None) \<Rightarrow> (Returned, w')
        | (w', Some c) \<Rightarrow> (Panicked c, w'))"
    by blast
  have "set ps = set (enumerate 0 input)"
    using ps(1) by (rule mset_eq_setD)
  with assms have "\<forall>(i, t)\<in>set ps. f t = Inr (g t, e t)"
    by (auto simp: in_set_enumerate_eq)
  note seq = sequential_MapErr_closure [OF this, of ?res None None]
  let ?errs = "fold (\<lambda>(i, t) errs. case e t of None \<Rightarrow> errs | Some x \<Rightarrow> Append errs x) ps None"
  have result: "Mapper_MapErr m zero input f sched = Inr (map g input, ?errs)"
    using seq ps by (simp add: Mapper_MapErr_def Let_def fold_writes_enumerate)
  have collected: "Errors_of ?errs = List.map_filter (\<lambda>(i, t). e t) ps"
    and none: "?errs = None \<longleftrightarrow> List.map_filter (\<lambda>(i, t). e t) ps = []"
    using fold_appends [of e ps None] by (simp_all add: Errors_of_def)
  have perm: "mset (List.map_filter (\<lambda>(i, t). e t) ps) = mset (List.map_filter e input)"
    using ps(1) by (rule mset_map_filter_enumerate)
  then have "List.map_filter (\<lambda>(i, t). e t) ps = [] \<longleftrightarrow> List.map_filter e input = []"
    by (metis mset_zero_iff)
  with result collected none perm show ?thesis by simp
qed

lemma sublist_join: "x \<in> set es \<Longrightarrow> sublist x (join es)"
proof (induction es rule: join.induct)
  case 1
  then show ?case by simp
next
  case (2 e)
  then show ?case by simp
next
  case (3 e e' es)
  show ?case
  proof (cases "x = e")
    case True
    then show ?thesis
      using sublist_appendI [of e "[]" "[CHR 0x0A] @ join (e' # es)"] by simp
  next
    case False
    with 3 have "sublist x (join (e' # es))" by simp
    then obtain ps ss where "join (e' # es) = ps @ x @ ss"
      by (auto simp: sublist_def)
    then have "join (e # e' # es) = (e @ [CHR 0x0A] @ ps) @ x @ ss"
      by simp
    then show ?thesis
      using sublist_appendI [of x "e @ [CHR 0x0A] @ ps" ss] by simp
  qed
qed

lemma MapErr_Mapper_MapErr: "MapErr zero input f sched = Mapper_MapErr m zero input f sched"
  by (simp add: MapErr_def Mapper_MapErr_def ForEachIdx_def)

lemma panicking_transform_invoked:
  "Mapper_Map m zero [t] (\<lambda>t. Inl p) sched = Inl (CapturedFailure p)"
  by (cases sched)
     (simp_all add: Mapper_Map_def ForEachIdx_def Wait_def NewWaitGroup_def Go_def complete_def
        drain.simps Map_closure_def capture_def Let_def)

section \<open>The WaitGroup\<close>





text \<open>
  Claim C5. The failure slot, once set, is never overwritten. From any state of a WaitGroup
  whose slot holds a captured failure, spawning a unit, letting a unit complete (with or
  without a panic of its own), and any sequence of such events, including units spawned
  after the capture, leave the slot as it is; draining leaves it as it is; and \<open>Wait\<close>
  raises exactly that captured failure.
\<close>

theorem slot_never_overwritten:
  assumes "slot wg = Some c"
  shows "slot (Go f wg) = Some c
     \<and> slot (complete k wg) = Some c
     \<and> slot (run es wg) = Some c
     \<and> slot (drain cs (run es wg)) = Some c
     \<and> fst (Wait cs (run es wg)) = Panicked c"
proof -
  have "slot (Go f wg) = Some c"
    using assms by (simp add: Go_def)
  moreover have "slot (complete k wg) = Some c"
    using run_slot_kept [OF assms, of "[Complete k]"] by simp
  moreover have "slot (run es wg) = Some c"
    using assms by (rule run_slot_kept)
  moreover from this have "slot (drain cs (run es wg)) = Some c"
    by (rule drain_slot_kept)
  moreover from this have "fst (Wait cs (run es wg)) = Panicked c"
    by (simp add: Wait_def Let_def)
  ultimately show ?thesis by simp
qed

theorem slot_never_overwritten_witness:
  "slot (run [Spawn (panic ''super bad thing''), Complete 0] (NewWaitGroup ()))
     = Some (CapturedFailure ''super bad thing'')
   \<and> slot (run [Spawn nothing, Spawn nothing, Spawn (panic ''super badder thing''), Complete 2,
         Spawn nothing, Complete 0]
        (run [Spawn (panic ''super bad thing''), Complete 0] (NewWaitGroup ())))
     = Some (CapturedFailure ''super bad thing'')
   \<and> fst (Wait [1] (run [Spawn nothing, Spawn nothing, Spawn (panic ''super badder thing''),
         Complete 2, Spawn nothing, Complete 0]
        (run [Spawn (panic ''super bad thing''), Complete 0] (NewWaitGroup ()))))
     = Panicked (CapturedFailure ''super bad thing'')"
proof -
  have h: "slot (run [Spawn (panic ''super bad thing''), Complete 0] (NewWaitGroup ()))
     = Some (CapturedFailure ''super bad thing'')"
    by (simp add: Go_def NewWaitGroup_def complete_def capture_def panic_def)
  from slot_never_overwritten [OF h] h show ?thesis by blast
qed

text \<open>
  Claim C6, as stated, fails when units panic with different payloads: the slot holds one
  failure, so the text of what \<open>WaitSafe\<close> returns contains the payload captured first and
  not the payload of every unit that panicked. In the scenario of the test "one is caught
  by waitsafe", the second unit panics with "another bad thing", and \<open>WaitSafe\<close> returns
  the failure of "one bad thing", whose text does not contain "another bad thing".
\<close>

theorem WaitSafe_one_payload_counterexample:
  "snd (panic ''another bad thing'' ()) = Some ''another bad thing''
   \<and> fst (WaitSafe [] (run [Spawn (panic ''one bad thing''), Spawn (panic ''another bad thing'')]
        (NewWaitGroup ()))) = Some (CapturedFailure ''one bad thing'')
   \<and> \<not> sublist ''another bad thing'' (Error_text id (CapturedFailure ''one bad thing''))"
  by (simp add: WaitSafe_def Let_def Go_def NewWaitGroup_def complete_def drain.simps capture_def
      panic_def Error_text_def sublist_Cons_right)

text \<open>
  Claim C6, amended. \<open>WaitSafe\<close> drains the group exactly as \<open>Wait\<close> does (same final
  state, nothing outstanding) and returns instead of raising. What it returns is the
  failure captured first: the units complete in an order that is a permutation of the
  spawned units, and \<open>WaitSafe\<close> returns the payload of the first unit of that order to
  panic, wrapped as a captured failure, or no failure value if none panics. So, if no
  spawned unit panics it returns no failure value. If a spawned unit panics it returns one
  failure value, the one \<open>Wait\<close> would raise: the payload it wraps is the payload of a
  panic of one of the spawned units, and its text contains that payload's text; when every
  panic of every unit carries the same payload \<open>p\<close>, the text contains the text of \<open>p\<close>.
  With two units that panic with different payloads, the one that completes first decides.
\<close>

theorem WaitSafe_returns_first_captured:
  "snd (WaitSafe cs (run es (NewWaitGroup w0))) = snd (Wait cs (run es (NewWaitGroup w0)))
   \<and> outstanding (snd (WaitSafe cs (run es (NewWaitGroup w0)))) = []
   \<and> mset (completion_order es cs) = mset (spawned es)
   \<and> fst (WaitSafe cs (run es (NewWaitGroup w0)))
        = map_option CapturedFailure (first_panic (completion_order es cs) w0)
   \<and> ((\<forall>f\<in>set (spawned es). \<forall>w. snd (f w) = None) \<longrightarrow>
        fst (WaitSafe cs (run es (NewWaitGroup w0))) = None)
   \<and> ((\<exists>f\<in>set (spawned es). \<forall>w. snd (f w) \<noteq> None) \<longrightarrow>
        (\<exists>c. fst (WaitSafe cs (run es (NewWaitGroup w0))) = Some c
           \<and> fst (Wait cs (run es (NewWaitGroup w0))) = Panicked c
           \<and> (\<exists>f\<in>set (spawned es). \<exists>w. snd (f w) = Some (payload c))
           \<and> sublist (fmt (payload c)) (Error_text fmt c)
           \<and> ((\<forall>f\<in>set (spawned es). \<forall>w q. snd (f w) = Some q \<longrightarrow> q = p) \<longrightarrow>
                sublist (fmt p) (Error_text fmt c))))"
  (is "?same \<and> ?drained \<and> ?perm \<and> ?first \<and> (?nofault \<longrightarrow> ?none) \<and> (?fault \<longrightarrow> ?some)")
proof -
  let ?wg = "drain cs (run es (NewWaitGroup w0))"
  from join_view [of es cs w0] obtain order where
    order: "mset order = mset (spawned es)" "outstanding ?wg = []"
           "(world ?wg, slot ?wg) = sequential order (w0, None)"
    by blast
  have safe: "WaitSafe cs (run es (NewWaitGroup w0)) = (slot ?wg, ?wg)"
    by (simp add: WaitSafe_def Let_def)
  have same: "set order = set (spawned es)"
    using order(1) by (rule mset_eq_setD)
  have s: "slot ?wg = snd (sequential order (w0, None))"
    using order(3) by (metis snd_conv)
  have contains: "sublist (fmt (payload c)) (Error_text fmt c)" for c :: "'b CapturedFailure"
    using sublist_appendI [of "fmt (payload c)" "''panic: ''" "[]"]
    by (simp add: Error_text_def)
  have ?same
    by (simp add: WaitSafe_def Wait_def Let_def)
  moreover have ?drained
    using order(2) by (simp add: safe)
  moreover have ?perm
    by (rule completion_order_mset)
  moreover have ?first
  proof -
    have "slot ?wg = snd (sequential (completion_order es cs) (w0, None))"
      using join_ordered [of cs es w0] by (simp add: view_def) (metis snd_conv)
    then show ?thesis
      by (simp add: safe sequential_first_panic)
  qed
  moreover have "?nofault \<longrightarrow> ?none"
    using same s by (simp add: safe sequential_no_fault)
  moreover have "?fault \<longrightarrow> ?some"
  proof
    assume ?fault
    with same s have "slot ?wg \<noteq> None"
      by (simp add: sequential_fault)
    then obtain c where c: "slot ?wg = Some c" by blast
    with s have "snd (sequential order (w0, None)) = Some c" by simp
    from sequential_captured [OF this] same
    have from_unit: "\<exists>f\<in>set (spawned es). \<exists>w. snd (f w) = Some (payload c)" by simp
    then have single: "sublist (fmt p) (Error_text fmt c)"
      if "\<forall>f\<in>set (spawned es). \<forall>w q. snd (f w) = Some q \<longrightarrow> q = p"
      using that contains [of c] by metis
    have "fst (WaitSafe cs (run es (NewWaitGroup w0))) = Some c"
      using c by (simp add: safe)
    moreover have "fst (Wait cs (run es (NewWaitGroup w0))) = Panicked c"
      using c by (simp add: Wait_def Let_def)
    ultimately show ?some
      using from_unit contains [of c] single by blast
  qed
  ultimately show ?thesis by blast
qed

theorem WaitSafe_returns_first_captured_witness:
  "fst (WaitSafe [1] (run [Spawn (Add 1), Spawn (Add 1)] (NewWaitGroup 0)))
     = (None :: string CapturedFailure option)
   \<and> (\<exists>c. fst (WaitSafe [1] (run [Spawn (Add 1), Spawn (panic ''super bad thing''),
            Spawn (Add 1)] (NewWaitGroup 0))) = Some c
         \<and> sublist ''super bad thing'' (Error_text id c))
   \<and> world (snd (WaitSafe [1] (run [Spawn (Add 1), Spawn (panic ''super bad thing''),
            Spawn (Add 1)] (NewWaitGroup 0)))) = 2
   \<and> fst (WaitSafe [] (run [Spawn (panic ''one bad thing''), Spawn (panic ''another bad thing'')]
            (NewWaitGroup ()))) = Some (CapturedFailure ''one bad thing'')
   \<and> fst (WaitSafe [1] (run [Spawn (panic ''one bad thing''), Spawn (panic ''another bad thing'')]
            (NewWaitGroup ()))) = Some (CapturedFailure ''another bad thing'')"
proof -
  have nofault: "\<forall>f\<in>set (spawned [Spawn (Add 1), Spawn (Add 1) :: (64 word, string) event]).
      \<forall>w. snd (f w) = None"
    by (simp add: Add_def)
  have fault: "\<exists>f\<in>set (spawned [Spawn (Add 1), Spawn (panic ''super bad thing''), Spawn (Add 1)]).
      \<forall>w. snd (f w) \<noteq> None"
    by (simp add: panic_def)
  have single: "\<forall>f\<in>set (spawned [Spawn (Add 1), Spawn (panic ''super bad thing''), Spawn (Add 1)]).
      \<forall>w q. snd (f w) = Some q \<longrightarrow> q = ''super bad thing''"
    by (simp add: panic_def Add_def)
  have "fst (WaitSafe [1] (run [Spawn (Add 1), Spawn (Add 1)] (NewWaitGroup 0)))
     = (None :: string CapturedFailure option)"
    by (rule WaitSafe_returns_first_captured [of "[1]" "[Spawn (Add 1), Spawn (Add 1)]" 0 id "[]",
          THEN conjunct2, THEN conjunct2, THEN conjunct2, THEN conjunct2, THEN conjunct1,
          THEN mp, OF nofault])
  moreover have "\<exists>c. fst (WaitSafe [1] (run [Spawn (Add 1), Spawn (panic ''super bad thing''),
            Spawn (Add 1)] (NewWaitGroup 0))) = Some c
         \<and> sublist ''super bad thing'' (Error_text id c)"
    using single WaitSafe_returns_first_captured [of "[1]"
      "[Spawn (Add 1), Spawn (panic ''super bad thing''), Spawn (Add 1)]" 0 id "''super bad thing''",
      THEN conjunct2, THEN conjunct2, THEN conjunct2, THEN conjunct2, THEN conjunct2,
      THEN mp, OF fault]
    by (metis id_apply)
  moreover have "world (snd (WaitSafe [1] (run [Spawn (Add 1), Spawn (panic ''super bad thing''),
            Spawn (Add 1)] (NewWaitGroup 0)))) = 2"
    by (simp add: WaitSafe_def Let_def Go_def NewWaitGroup_def complete_def drain.simps
        capture_def panic_def Add_def)
  moreover have "fst (WaitSafe [] (run [Spawn (panic ''one bad thing''),
            Spawn (panic ''another bad thing'')] (NewWaitGroup ())))
      = Some (CapturedFailure ''one bad thing'')"
    using WaitSafe_returns_first_captured [of "[]"
      "[Spawn (panic ''one bad thing''), Spawn (panic ''another bad thing'')]" "()" id "[]",
      THEN conjunct2, THEN conjunct2, THEN conjunct2, THEN conjunct1]
    by (simp add: completion_order_def drain_order.simps panic_def)
  moreover have "fst (WaitSafe [1] (run [Spawn (panic ''one bad thing''),
            Spawn (panic ''another bad thing'')] (NewWaitGroup ())))
      = Some (CapturedFailure ''another bad thing'')"
    using WaitSafe_returns_first_captured [of "[1]"
      "[Spawn (panic ''one bad thing''), Spawn (panic ''another bad thing'')]" "()" id "[]",
      THEN conjunct2, THEN conjunct2, THEN conjunct2, THEN conjunct1]
    by (simp add: completion_order_def drain_order.simps panic_def)
  ultimately show ?thesis by blast
qed

section \<open>Map and MapErr\<close>

text \<open>
  Claim C1. For every input slice of length \<open>N\<close> and every transform \<open>f\<close> (one that returns
  on the elements of the input, \<open>g\<close> naming what it returns), \<open>Map\<close> returns a slice of
  length \<open>N\<close> whose \<open>i\<close>-th element is what \<open>f\<close> returns on the \<open>i\<close>-th input element,
  for every \<open>i < N\<close>: the output is ordered by input index under every schedule, that is,
  whatever the order in which the invocations complete. This holds for every
  \<open>Mapper\<close> and for the package-level \<open>Map\<close>.
\<close>

theorem Map_index_order:
  assumes "\<forall>t\<in>set input. f t = Inr (g t)"
  shows "\<exists>res. Mapper_Map m zero input f sched = Inr res
     \<and> Map zero input f sched = Inr res
     \<and> length res = length input
     \<and> (\<forall>i<length input. f (input ! i) = Inr (res ! i))
     \<and> res = map g input"
proof -
  have "Mapper_Map m zero input f sched = Inr (map g input)"
    using assms by (rule Mapper_Map_result)
  moreover have "Map zero input f sched = Inr (map g input)"
    using assms by (simp add: Map_def Mapper_Map_result)
  moreover have "\<forall>i<length input. f (input ! i) = Inr (map g input ! i)"
    using assms by simp
  ultimately show ?thesis by simp
qed

theorem Map_index_order_witness:
  "Mapper_Map \<lparr>Iterator = \<lparr>MaxGoroutines = 3\<rparr>\<rparr> 0 [1, 2, 3 :: int] (\<lambda>x. Inr (x * 2)) [2, 0]
     = (Inr [2, 4, 6] :: unit CapturedFailure + int list)"
  using Map_index_order [of "[1, 2, 3 :: int]" "\<lambda>x. Inr (x * 2) :: unit + int" "\<lambda>x. x * 2"
      "\<lparr>Iterator = \<lparr>MaxGoroutines = 3\<rparr>\<rparr>" 0 "[2, 0]"]
  by simp

text \<open>
  Claim C8. \<open>Map\<close> with the identity transform returns a slice equal to its input, for
  every input of any length and under every schedule.
\<close>

theorem Map_identity:
  "Mapper_Map m zero input (Inr :: 't \<Rightarrow> 'p + 't) sched = Inr input
   \<and> Map zero input (Inr :: 't \<Rightarrow> 'p + 't) sched = Inr input"
proof -
  have "Mapper_Map m zero input (Inr :: 't \<Rightarrow> 'p + 't) sched = Inr (map (\<lambda>t. t) input)"
    for m :: Mapper
    by (rule Mapper_Map_result) simp
  then show ?thesis by (simp add: Map_def)
qed

text \<open>
  Claim C10. On the empty input \<open>Map\<close> returns the empty slice, and \<open>MapErr\<close> returns the
  empty slice together with the \<open>nil\<close> error, whatever the transform: in particular for
  a transform that panics whenever it is invoked, which shows that it is not invoked
  (on a one-element input the same transform makes \<open>Map\<close> panic, lemma
  \<open>panicking_transform_invoked\<close>).
\<close>

theorem Map_empty_input:
  "Mapper_Map m zero [] f sched = Inr []
   \<and> Map zero [] f sched = Inr []
   \<and> Mapper_MapErr m zero' [] f' sched' = Inr ([], None)
   \<and> MapErr zero' [] f' sched' = Inr ([], None)
   \<and> Mapper_Map m zero [] (\<lambda>t. Inl p) sched = Inr []
   \<and> Mapper_MapErr m zero' [] (\<lambda>t. Inl p') sched' = Inr ([], None)"
  by (simp add: Map_def MapErr_def Mapper_Map_def Mapper_MapErr_def ForEachIdx_def Wait_def
      NewWaitGroup_def drain.simps)

text \<open>
  Claim C2. For every input, where the transform returns on every element (the value
  \<open>g t\<close> and the error \<open>e t\<close>) and exactly \<open>k\<close> elements get a non-nil error, \<open>MapErr\<close>
  returns a non-nil combined error if and only if \<open>k > 0\<close>: with \<open>k = 0\<close> the returned
  error is \<open>nil\<close>. The combined error holds exactly \<open>k\<close> failures.
\<close>

theorem MapErr_error_iff_some_failed:
  assumes "\<forall>t\<in>set input. f t = Inr (g t, e t)"
  shows "\<exists>res errs. Mapper_MapErr m zero input f sched = Inr (res, errs)
     \<and> MapErr zero input f sched = Inr (res, errs)
     \<and> (errs \<noteq> None \<longleftrightarrow> 0 < length (filter (\<lambda>t. e t \<noteq> None) input))
     \<and> length (Errors_of errs) = length (filter (\<lambda>t. e t \<noteq> None) input)"
proof -
  from Mapper_MapErr_result [OF assms, of m zero sched] obtain errs where
    errs: "Mapper_MapErr m zero input f sched = Inr (map g input, errs)"
      "mset (Errors_of errs) = mset (List.map_filter e input)"
      "errs = None \<longleftrightarrow> List.map_filter e input = []"
    by blast
  have k: "length (List.map_filter e input) = length (filter (\<lambda>t. e t \<noteq> None) input)"
    by (simp add: List.map_filter_def)
  have "length (Errors_of errs) = length (filter (\<lambda>t. e t \<noteq> None) input)"
    using mset_eq_length [OF errs(2)] k by simp
  moreover have "errs \<noteq> None \<longleftrightarrow> 0 < length (filter (\<lambda>t. e t \<noteq> None) input)"
    using errs(3) k by (metis length_greater_0_conv)
  moreover have "MapErr zero input f sched = Inr (map g input, errs)"
    using errs(1) by (simp add: MapErr_Mapper_MapErr [of _ _ _ _ m])
  ultimately show ?thesis using errs(1) by blast
qed

theorem MapErr_error_iff_some_failed_witness:
  "(\<exists>res errs. Mapper_MapErr \<lparr>Iterator = \<lparr>MaxGoroutines = 3\<rparr>\<rparr> 0 [1, 2, 3 :: int]
        (\<lambda>x. Inr (x * 2, if x = 2 then Some ''two is bad'' else None) :: unit + int \<times> string option)
        [2, 0] = Inr (res, errs) \<and> errs \<noteq> None)
   \<and> (\<exists>res. Mapper_MapErr \<lparr>Iterator = \<lparr>MaxGoroutines = 3\<rparr>\<rparr> 0 [1, 3 :: int]
        (\<lambda>x. Inr (x * 2, if x = 2 then Some ''two is bad'' else None) :: unit + int \<times> string option)
        [1] = Inr (res, None))"
  using
    MapErr_error_iff_some_failed [of "[1, 2, 3 :: int]"
      "\<lambda>x. Inr (x * 2, if x = 2 then Some ''two is bad'' else None) :: unit + int \<times> string option"
      "\<lambda>x. x * 2" "\<lambda>x. if x = 2 then Some ''two is bad'' else None"
      "\<lparr>Iterator = \<lparr>MaxGoroutines = 3\<rparr>\<rparr>" 0 "[2, 0]"]
    MapErr_error_iff_some_failed [of "[1, 3 :: int]"
      "\<lambda>x. Inr (x * 2, if x = 2 then Some ''two is bad'' else None) :: unit + int \<times> string option"
      "\<lambda>x. x * 2" "\<lambda>x. if x = 2 then Some ''two is bad'' else None"
      "\<lparr>Iterator = \<lparr>MaxGoroutines = 3\<rparr>\<rparr>" 0 "[1]"]
  by simp blast

text \<open>
  Claim C3. In \<open>MapErr\<close> the returned slice has the length of the input, and at every
  index it holds the value the transform returned for that element, whether or not the
  transform reported an error for that element or for any other: no index is left at the
  zero value because of an error.
\<close>

theorem MapErr_every_value_set:
  assumes "\<forall>t\<in>set input. f t = Inr (g t, e t)"
  shows "\<exists>res errs. Mapper_MapErr m zero input f sched = Inr (res, errs)
     \<and> MapErr zero input f sched = Inr (res, errs)
     \<and> length res = length input
     \<and> (\<forall>i<length input. f (input ! i) = Inr (res ! i, e (input ! i)))
     \<and> res = map g input"
proof -
  from Mapper_MapErr_result [OF assms, of m zero sched] obtain errs where
    errs: "Mapper_MapErr m zero input f sched = Inr (map g input, errs)"
    by blast
  moreover have "MapErr zero input f sched = Inr (map g input, errs)"
    using errs by (simp add: MapErr_Mapper_MapErr [of _ _ _ _ m])
  moreover have "\<forall>i<length input. f (input ! i) = Inr (map g input ! i, e (input ! i))"
    using assms by simp
  ultimately show ?thesis by simp
qed

theorem MapErr_every_value_set_witness:
  "\<exists>errs. Mapper_MapErr \<lparr>Iterator = \<lparr>MaxGoroutines = 3\<rparr>\<rparr> 0 [1, 2, 3 :: int]
        (\<lambda>x. Inr (x * 2, if x = 2 then Some ''two is bad'' else None) :: unit + int \<times> string option)
        [2, 0] = Inr ([2, 4, 6], errs)"
  using
    MapErr_every_value_set [of "[1, 2, 3 :: int]"
      "\<lambda>x. Inr (x * 2, if x = 2 then Some ''two is bad'' else None) :: unit + int \<times> string option"
      "\<lambda>x. x * 2" "\<lambda>x. if x = 2 then Some ''two is bad'' else None"
      "\<lparr>Iterator = \<lparr>MaxGoroutines = 3\<rparr>\<rparr>" 0 "[2, 0]"]
  by simp blast

text \<open>
  Claim C7. When one or more elements' transforms report an error, the text of the combined
  error that \<open>MapErr\<close> returns contains the text of every reported error; the combined
  error holds the reported errors, one per failing element, in the order of completion.
\<close>

theorem MapErr_text_contains_every_error:
  assumes "\<forall>t\<in>set input. f t = Inr (g t, e t)"
    and "\<exists>t\<in>set input. e t \<noteq> None"
  shows "\<exists>res errs. Mapper_MapErr m zero input f sched = Inr (res, Some errs)
     \<and> MapErr zero input f sched = Inr (res, Some errs)
     \<and> (\<forall>t\<in>set input. \<forall>x. e t = Some x \<longrightarrow> sublist x (MultiError_text errs))
     \<and> mset (Errors errs) = mset (List.map_filter e input)"
proof -
  from Mapper_MapErr_result [OF assms(1), of m zero sched] obtain errs where
    errs: "Mapper_MapErr m zero input f sched = Inr (map g input, errs)"
      "mset (Errors_of errs) = mset (List.map_filter e input)"
      "errs = None \<longleftrightarrow> List.map_filter e input = []"
    by blast
  from assms(2) obtain t x where "t \<in> set input" "e t = Some x" by auto
  then have "x \<in> set (List.map_filter e input)"
    by (force simp: List.map_filter_def)
  with errs(3) obtain me where me: "errs = Some me" by (cases errs) auto
  with errs(2) have perm: "mset (Errors me) = mset (List.map_filter e input)"
    by (simp add: Errors_of_def)
  have "sublist x (MultiError_text me)" if "t \<in> set input" "e t = Some x" for t x
  proof -
    from that have "x \<in> set (List.map_filter e input)"
      by (force simp: List.map_filter_def)
    with perm have "x \<in> set (Errors me)" by (metis mset_eq_setD)
    then show ?thesis by (simp add: MultiError_text_def sublist_join)
  qed
  moreover have "MapErr zero input f sched = Inr (map g input, Some me)"
    using errs(1) me by (simp add: MapErr_Mapper_MapErr [of _ _ _ _ m])
  ultimately show ?thesis using errs(1) me perm by blast
qed

theorem MapErr_text_contains_every_error_witness:
  "\<exists>res errs. Mapper_MapErr \<lparr>Iterator = \<lparr>MaxGoroutines = 3\<rparr>\<rparr> 0 [1, 2, 3 :: int]
        (\<lambda>x. Inr (x * 2, if x = 2 then None else Some (if x = 1 then ''one is bad'' else ''three too''))
           :: unit + int \<times> string option)
        [2, 0] = Inr (res, Some errs)
      \<and> sublist ''one is bad'' (MultiError_text errs)
      \<and> sublist ''three too'' (MultiError_text errs)"
proof -
  let ?e = "\<lambda>x :: int. if x = 2 then None else Some (if x = 1 then ''one is bad'' else ''three too'')"
  have h1: "\<forall>t\<in>set [1, 2, 3 :: int]. (Inr (t * 2, ?e t) :: unit + int \<times> string option) = Inr (t * 2, ?e t)"
    by simp
  have h2: "\<exists>t\<in>set [1, 2, 3 :: int]. ?e t \<noteq> None"
    by simp
  from MapErr_text_contains_every_error [of "[1, 2, 3 :: int]" "\<lambda>x. Inr (x * 2, ?e x)" "\<lambda>x. x * 2" ?e,
      OF h1 h2, of "\<lparr>Iterator = \<lparr>MaxGoroutines = 3\<rparr>\<rparr>" 0 "[2, 0]"]
  obtain res errs where
    r: "Mapper_MapErr \<lparr>Iterator = \<lparr>MaxGoroutines = 3\<rparr>\<rparr> 0 [1, 2, 3 :: int]
          (\<lambda>x. Inr (x * 2, ?e x) :: unit + int \<times> string option) [2, 0] = Inr (res, Some errs)"
       "\<forall>t\<in>set [1, 2, 3 :: int]. \<forall>x. ?e t = Some x \<longrightarrow> sublist x (MultiError_text errs)"
    by blast
  from r(2) have "sublist ''one is bad'' (MultiError_text errs)"
      "sublist ''three too'' (MultiError_text errs)"
    by simp_all
  with r(1) show ?thesis by blast
qed

end
